theory Spec2Isabelle
  imports Main "HOL-Library.AList"
begin

section \<open>The event bus of eventbus.go\<close>

text \<open>
  The bus is a Go struct holding a map from topic names to slices of channels, a flag
  \<open>closed\<close>, a channel \<open>quitCh\<close> that is closed to broadcast shutdown, and a
  \<open>sync.WaitGroup\<close> counting the delivery goroutines started by \<open>Publish\<close>.
  Every method takes the lock of the bus around its access to the map and the flag, so a
  method is modelled as a function from the state before the call to the outcome and the
  state after it, one call at a time; the lock is not part of the state. What lies
  outside the struct but decides what the methods do is part of the state as well: which
  channels have been made and which of them closed, on which channels a receiver is
  waiting, which delivery goroutines have been started and have not yet finished, and
  the channel operations carried out so far.

  A channel is its identity, a natural number handed out by \<open>make\<close>. The map is an
  association list with the keys in some fixed order (Go leaves the iteration order of a
  map open); \<open>Topics\<close> returns the keys, to be read as a set. The payload \<open>any\<close> is a
  type parameter.
\<close>

type_synonym chan = nat
type_synonym topic = string

text \<open>
  The run-time panics the code can meet: of a send, of \<open>close\<close>, and of \<open>wg.Done()\<close>
  on a counter that is zero.
\<close>

datatype panic = SendOnClosedChannel | CloseOfClosedChannel | NegativeWaitGroupCounter

text \<open>
  The error values of the package: \<open>ErrBusClosed\<close>, the per-subscriber error built by
  \<open>fmt.Errorf("subscriber %d panic: %v", i, r)\<close> and the aggregate built by
  \<open>fmt.Errorf("PublishSync: %d error(s); first: %v", len(errs), errs[0])\<close>, each
  kept as the values it is formatted from.
\<close>

datatype error =
    ErrBusClosed
  | SubscriberPanic nat panic
  | PublishSyncErrors nat error

text \<open>
  How a call ends: it returns a value, it panics, or it blocks for ever (a send on an
  open channel nobody receives from, a wait that is never released).
\<close>

datatype 'r outcome = Returns 'r | Panics panic | Blocks

text \<open>The channel operations that have been carried out, in the order they happened.\<close>

datatype 'd event =
    Delivered chan 'd
  | SendFailed chan 'd
  | Closed chan
  | Logged panic

text \<open>
  A \<open>select\<close> with several ready cases takes one of them at random; the choice is a
  parameter of the model.
\<close>

datatype select_choice = SendCase | QuitCase

text \<open>
  The first four fields are those of the struct \<open>EventBus\<close>, the others the
  surroundings: the next channel \<open>make\<close> hands out, the closed channels, the channels
  with a waiting receiver, the pending delivery goroutines with channel and payload, and
  the trace.
\<close>

record 'd world =
  subscribers :: "(topic \<times> chan list) list"
  closed :: bool
  quitCh :: chan
  wg :: nat
  next_chan :: chan
  closed_chans :: "chan set"
  receiving :: "chan set"
  goroutines :: "(chan \<times> 'd) list"
  trace :: "'d event list"

subsection \<open>Channels, slices and the map\<close>

text \<open>\<open>make(chan any)\<close>: a channel that did not exist before.\<close>

definition make_chan :: "'d world \<Rightarrow> chan \<times> 'd world" where
  "make_chan w = (next_chan w, w\<lparr>next_chan := Suc (next_chan w)\<rparr>)"

text \<open>\<open>close(ch)\<close> panics on a channel that is closed already.\<close>

definition close_chan :: "chan \<Rightarrow> 'd world \<Rightarrow> unit outcome \<times> 'd world" where
  "close_chan ch w =
     (if ch \<in> closed_chans w then (Panics CloseOfClosedChannel, w)
      else (Returns (), w\<lparr>closed_chans := insert ch (closed_chans w),
                           trace := trace w @ [Closed ch]\<rparr>))"

text \<open>
  \<open>ch <- data\<close> on an unbuffered channel: a panic when the channel is closed, a
  hand-over when a receiver is waiting, and no return otherwise.
\<close>

definition send :: "chan \<Rightarrow> 'd \<Rightarrow> 'd world \<Rightarrow> unit outcome \<times> 'd world" where
  "send ch data w =
     (if ch \<in> closed_chans w
        then (Panics SendOnClosedChannel, w\<lparr>trace := trace w @ [SendFailed ch data]\<rparr>)
      else if ch \<in> receiving w
        then (Returns (), w\<lparr>trace := trace w @ [Delivered ch data]\<rparr>)
      else (Blocks, w))"

text \<open>\<open>m[topic]\<close> read from a map of slices: the nil slice when the key is absent.\<close>

definition subs_at :: "(topic \<times> chan list) list \<Rightarrow> topic \<Rightarrow> chan list" where
  "subs_at m t = (case map_of m t of None \<Rightarrow> [] | Some cs \<Rightarrow> cs)"

text \<open>\<open>slices.Clone\<close> and \<open>slices.Delete(s, i, j)\<close> for \<open>i \<le> j \<le> len(s)\<close>.\<close>

definition slices_Clone :: "'a list \<Rightarrow> 'a list" where
  "slices_Clone s = s"

definition slices_Delete :: "'a list \<Rightarrow> nat \<Rightarrow> nat \<Rightarrow> 'a list" where
  "slices_Delete s i j = take i s @ drop j s"

subsection \<open>NewEventBus, Subscribe, Unsubscribe\<close>

definition NewEventBus :: "'d world" where
  "NewEventBus =
     \<lparr>subscribers = [], closed = False, quitCh = 0, wg = 0, next_chan = 1,
      closed_chans = {}, receiving = {}, goroutines = [], trace = []\<rparr>"

definition Subscribe :: "topic \<Rightarrow> 'd world \<Rightarrow> chan outcome \<times> 'd world" where
  "Subscribe t w =
     (let (ch, w1) = make_chan w in
      if closed w1 then
        (case close_chan ch w1 of
           (Returns u, w2) \<Rightarrow> (Returns ch, w2)
         | (Panics p, w2) \<Rightarrow> (Panics p, w2)
         | (Blocks, w2) \<Rightarrow> (Blocks, w2))
      else
        (Returns ch,
         w1\<lparr>subscribers :=
               AList.update t (subs_at (subscribers w1) t @ [ch]) (subscribers w1)\<rparr>))"

text \<open>
  The loop of \<open>Unsubscribe\<close> stops at the first index whose channel is the one given.
\<close>

fun find_sub :: "chan \<Rightarrow> chan list \<Rightarrow> nat \<Rightarrow> nat option" where
  "find_sub subscriber [] i = None"
| "find_sub subscriber (sub # rest) i =
     (if sub = subscriber then Some i else find_sub subscriber rest (Suc i))"

definition Unsubscribe :: "topic \<Rightarrow> chan \<Rightarrow> 'd world \<Rightarrow> unit outcome \<times> 'd world" where
  "Unsubscribe t subscriber w =
     (let subs = subs_at (subscribers w) t in
      case find_sub subscriber subs 0 of
        None \<Rightarrow> (Returns (), w)
      | Some i \<Rightarrow>
          close_chan subscriber
            (w\<lparr>subscribers :=
                 AList.update t (slices_Delete subs i (Suc i)) (subscribers w)\<rparr>))"

subsection \<open>Publish and its delivery goroutines\<close>

text \<open>
  The loop of \<open>Publish\<close> adds one to the wait group and starts one goroutine for each
  channel of the snapshot.
\<close>

fun Publish_loop :: "chan list \<Rightarrow> 'd \<Rightarrow> 'd world \<Rightarrow> 'd world" where
  "Publish_loop [] data w = w"
| "Publish_loop (sub # rest) data w =
     Publish_loop rest data
       (w\<lparr>wg := Suc (wg w), goroutines := goroutines w @ [(sub, data)]\<rparr>)"

definition Publish :: "topic \<Rightarrow> 'd \<Rightarrow> 'd world \<Rightarrow> unit outcome \<times> 'd world" where
  "Publish t data w =
     (if closed w then (Returns (), w)
      else (Returns (),
            Publish_loop (slices_Clone (subs_at (subscribers w) t)) data w))"

text \<open>\<open>wg.Done()\<close> takes one off the counter and panics when it would go below zero.\<close>

definition wg_Done :: "'d world \<Rightarrow> unit outcome \<times> 'd world" where
  "wg_Done w =
     (if wg w = 0 then (Panics NegativeWaitGroupCounter, w)
      else (Returns (), w\<lparr>wg := wg w - 1\<rparr>))"

text \<open>
  The body of a delivery goroutine: the \<open>select\<close> between the send and \<open>quitCh\<close>,
  the recovery that logs a panic of the send, and \<open>wg.Done()\<close> on every way out.
  The send case is ready when the send would not block, the other case when \<open>quitCh\<close>
  is closed; with neither ready the goroutine stays blocked.
\<close>

definition goroutine :: "select_choice \<Rightarrow> chan \<times> 'd \<Rightarrow> 'd world \<Rightarrow> unit outcome \<times> 'd world" where
  "goroutine choice g w =
     (let ch = fst g; data = snd g;
          send_ready = (ch \<in> closed_chans w \<or> ch \<in> receiving w);
          quit_ready = (quitCh w \<in> closed_chans w)
      in if \<not> send_ready \<and> \<not> quit_ready then (Blocks, w)
         else if send_ready \<and> (\<not> quit_ready \<or> choice = SendCase) then
           (case send ch data w of
              (Returns u, w1) \<Rightarrow> wg_Done w1
            | (Panics r, w1) \<Rightarrow> wg_Done (w1\<lparr>trace := trace w1 @ [Logged r]\<rparr>)
            | (Blocks, w1) \<Rightarrow> (Blocks, w1))
         else wg_Done w)"

text \<open>
  The scheduler runs the \<open>k\<close>-th started goroutine; when it is blocked nothing happens,
  when it finishes it is gone.
\<close>

definition schedule :: "nat \<Rightarrow> select_choice \<Rightarrow> 'd world \<Rightarrow> 'd world" where
  "schedule k choice w =
     (if k < length (goroutines w) then
        (case goroutine choice (goroutines w ! k) w of
           (Returns u, w1) \<Rightarrow>
             w1\<lparr>goroutines := take k (goroutines w1) @ drop (Suc k) (goroutines w1)\<rparr>
         | (Panics p, w1) \<Rightarrow> w1
         | (Blocks, w1) \<Rightarrow> w1)
      else w)"

subsection \<open>PublishSync\<close>

text \<open>
  The loop of \<open>PublishSync\<close>: index \<open>i\<close>, the rest of the snapshot, the errors so far.
  A panic of the send is recovered and recorded with the index, and the loop goes on.
\<close>

fun PublishSync_loop ::
  "nat \<Rightarrow> chan list \<Rightarrow> 'd \<Rightarrow> error list \<Rightarrow> 'd world \<Rightarrow> error list outcome \<times> 'd world" where
  "PublishSync_loop i [] data errs w = (Returns errs, w)"
| "PublishSync_loop i (sub # rest) data errs w =
     (case send sub data w of
        (Returns u, w1) \<Rightarrow> PublishSync_loop (Suc i) rest data errs w1
      | (Panics r, w1) \<Rightarrow> PublishSync_loop (Suc i) rest data (errs @ [SubscriberPanic i r]) w1
      | (Blocks, w1) \<Rightarrow> (Blocks, w1))"

text \<open>Lines 108 to 122: the loop over the snapshot and the error that is returned.\<close>

definition PublishSync_deliver ::
  "chan list \<Rightarrow> 'd \<Rightarrow> 'd world \<Rightarrow> error option outcome \<times> 'd world" where
  "PublishSync_deliver subs data w =
     (case PublishSync_loop 0 subs data [] w of
        (Returns errs, w1) \<Rightarrow>
          (case errs of
             [] \<Rightarrow> (Returns None, w1)
           | e # es \<Rightarrow> (Returns (Some (PublishSyncErrors (length errs) e)), w1))
      | (Panics p, w1) \<Rightarrow> (Panics p, w1)
      | (Blocks, w1) \<Rightarrow> (Blocks, w1))"

definition PublishSync :: "topic \<Rightarrow> 'd \<Rightarrow> 'd world \<Rightarrow> error option outcome \<times> 'd world" where
  "PublishSync t data w =
     (if closed w then (Returns (Some ErrBusClosed), w)
      else PublishSync_deliver (slices_Clone (subs_at (subscribers w) t)) data w)"

subsection \<open>Close\<close>

text \<open>
  \<open>wg.Wait()\<close> returns once every started goroutine has called \<open>wg.Done()\<close>: the
  goroutines still pending run to their end, each with the choice \<open>pick\<close> makes for its
  channel, and the wait is over when the counter is zero.
\<close>

fun run_goroutines ::
  "(chan \<Rightarrow> select_choice) \<Rightarrow> (chan \<times> 'd) list \<Rightarrow> 'd world \<Rightarrow> unit outcome \<times> 'd world" where
  "run_goroutines pick [] w = (Returns (), w)"
| "run_goroutines pick (g # gs) w =
     (case goroutine (pick (fst g)) g w of
        (Returns u, w1) \<Rightarrow> run_goroutines pick gs (w1\<lparr>goroutines := gs\<rparr>)
      | (Panics p, w1) \<Rightarrow> (Panics p, w1)
      | (Blocks, w1) \<Rightarrow> (Blocks, w1))"

definition wg_Wait :: "(chan \<Rightarrow> select_choice) \<Rightarrow> 'd world \<Rightarrow> unit outcome \<times> 'd world" where
  "wg_Wait pick w =
     (case run_goroutines pick (goroutines w) w of
        (Returns u, w1) \<Rightarrow> (if wg w1 = 0 then (Returns (), w1) else (Blocks, w1))
      | (Panics p, w1) \<Rightarrow> (Panics p, w1)
      | (Blocks, w1) \<Rightarrow> (Blocks, w1))"

text \<open>The inner loop of phase 3 closes the channels of one topic.\<close>

fun close_subs :: "chan list \<Rightarrow> 'd world \<Rightarrow> unit outcome \<times> 'd world" where
  "close_subs [] w = (Returns (), w)"
| "close_subs (sub # rest) w =
     (case close_chan sub w of
        (Returns u, w1) \<Rightarrow> close_subs rest w1
      | (Panics p, w1) \<Rightarrow> (Panics p, w1)
      | (Blocks, w1) \<Rightarrow> (Blocks, w1))"

text \<open>The outer loop ranges over the map and deletes each key after closing its channels.\<close>

fun close_topics :: "(topic \<times> chan list) list \<Rightarrow> 'd world \<Rightarrow> unit outcome \<times> 'd world" where
  "close_topics [] w = (Returns (), w)"
| "close_topics (entry # entries) w =
     (case close_subs (snd entry) w of
        (Returns u, w1) \<Rightarrow>
          close_topics entries
            (w1\<lparr>subscribers := AList.delete (fst entry) (subscribers w1)\<rparr>)
      | (Panics p, w1) \<Rightarrow> (Panics p, w1)
      | (Blocks, w1) \<Rightarrow> (Blocks, w1))"

definition Close :: "(chan \<Rightarrow> select_choice) \<Rightarrow> 'd world \<Rightarrow> unit outcome \<times> 'd world" where
  "Close pick w =
     (if closed w then (Returns (), w)
      else
        (case close_chan (quitCh w) (w\<lparr>closed := True\<rparr>) of
           (Returns u, w1) \<Rightarrow>
             (case wg_Wait pick w1 of
                (Returns u, w2) \<Rightarrow> close_topics (subscribers w2) w2
              | (Panics p, w2) \<Rightarrow> (Panics p, w2)
              | (Blocks, w2) \<Rightarrow> (Blocks, w2))
         | (Panics p, w1) \<Rightarrow> (Panics p, w1)
         | (Blocks, w1) \<Rightarrow> (Blocks, w1)))"

subsection \<open>Topics and SubscriberCount\<close>

definition Topics :: "'d world \<Rightarrow> topic list" where
  "Topics w = map fst (subscribers w)"

definition SubscriberCount :: "topic \<Rightarrow> 'd world \<Rightarrow> nat" where
  "SubscriberCount t w = length (subs_at (subscribers w) t)"

subsection \<open>Sequences of calls\<close>

text \<open>
  What can happen to a bus: a call of one of its methods, the scheduler running one of
  the pending delivery goroutines, and the subscribers changing the channels they wait on.
\<close>

datatype 'd call =
    Call_Subscribe topic
  | Call_Unsubscribe topic chan
  | Call_Publish topic 'd
  | Call_PublishSync topic 'd
  | Call_Close "chan \<Rightarrow> select_choice"
  | Call_Topics
  | Call_SubscriberCount topic
  | Run_goroutine nat select_choice
  | Receivers "chan set"

fun exec :: "'d call \<Rightarrow> 'd world \<Rightarrow> 'd world" where
  "exec (Call_Subscribe t) w = snd (Subscribe t w)"
| "exec (Call_Unsubscribe t c) w = snd (Unsubscribe t c w)"
| "exec (Call_Publish t d) w = snd (Publish t d w)"
| "exec (Call_PublishSync t d) w = snd (PublishSync t d w)"
| "exec (Call_Close pick) w = snd (Close pick w)"
| "exec Call_Topics w = w"
| "exec (Call_SubscriberCount t) w = w"
| "exec (Run_goroutine k choice) w = schedule k choice w"
| "exec (Receivers cs) w = w\<lparr>receiving := cs\<rparr>"

fun run :: "'d call list \<Rightarrow> 'd world \<Rightarrow> 'd world" where
  "run [] w = w"
| "run (c # cs) w = run cs (exec c w)"

fun is_Close :: "'d call \<Rightarrow> bool" where
  "is_Close (Call_Close pick) = True"
| "is_Close c = False"

subsection \<open>Reading a state\<close>

text \<open>
  All channels registered in the map, the channels closed so far according to the trace,
  the channels a value has been handed to, and the channels a send has been carried out
  on (handed over or failed).
\<close>

definition chans_of :: "(topic \<times> chan list) list \<Rightarrow> chan list" where
  "chans_of m = concat (map snd m)"

fun closes :: "'d event list \<Rightarrow> chan list" where
  "closes [] = []"
| "closes (Closed c # es) = c # closes es"
| "closes (e # es) = closes es"

fun delivered_to :: "'d event list \<Rightarrow> chan list" where
  "delivered_to [] = []"
| "delivered_to (Delivered c d # es) = c # delivered_to es"
| "delivered_to (e # es) = delivered_to es"

fun attempted :: "'d event list \<Rightarrow> chan list" where
  "attempted [] = []"
| "attempted (Delivered c d # es) = c # attempted es"
| "attempted (SendFailed c d # es) = c # attempted es"
| "attempted (e # es) = attempted es"

text \<open>What a send on \<open>c\<close> leaves in the trace when it does not block.\<close>

definition send_event :: "'d world \<Rightarrow> 'd \<Rightarrow> chan \<Rightarrow> 'd event" where
  "send_event w d c = (if c \<in> closed_chans w then SendFailed c d else Delivered c d)"

text \<open>What a delivery goroutine that finishes leaves in the trace.\<close>

definition goroutine_events :: "select_choice \<Rightarrow> chan \<times> 'd \<Rightarrow> 'd world \<Rightarrow> 'd event list" where
  "goroutine_events choice g w =
     (if fst g \<in> closed_chans w \<union> receiving w
         \<and> (quitCh w \<notin> closed_chans w \<or> choice = SendCase)
      then (if fst g \<in> closed_chans w
            then [SendFailed (fst g) (snd g), Logged SendOnClosedChannel]
            else [Delivered (fst g) (snd g)])
      else [])"

text \<open>
  The states the bus can be in, between calls and in the middle of \<open>Close\<close>. The keys
  of the map are distinct; a channel is registered at most once, under one topic; a
  registered channel has been made, is open and is not \<open>quitCh\<close>; all channels that
  occur anywhere have been made; \<open>quitCh\<close> is closed exactly when the flag is set; the
  wait group counts the pending goroutines; and every closed channel was closed once.
\<close>

definition well_formed :: "'d world \<Rightarrow> bool" where
  "well_formed w \<longleftrightarrow>
     distinct (map fst (subscribers w)) \<and>
     distinct (chans_of (subscribers w)) \<and>
     (\<forall>c\<in>set (chans_of (subscribers w)). c < next_chan w \<and> c \<notin> closed_chans w) \<and>
     quitCh w \<notin> set (chans_of (subscribers w)) \<and>
     quitCh w < next_chan w \<and>
     (\<forall>c\<in>closed_chans w. c < next_chan w) \<and>
     (\<forall>g\<in>set (goroutines w). fst g < next_chan w) \<and>
     (\<forall>c\<in>set (delivered_to (trace w)). c < next_chan w) \<and>
     closed w = (quitCh w \<in> closed_chans w) \<and>
     wg w = length (goroutines w) \<and>
     distinct (closes (trace w)) \<and>
     set (closes (trace w)) = closed_chans w"

text \<open>
  Channels are numbered as they are made, and a call of \<open>Subscribe\<close> makes its channel
  and registers it in one step; so a sequence that is in the order of registration is
  increasing.
\<close>

definition in_order :: "'d world \<Rightarrow> bool" where
  "in_order w \<longleftrightarrow> (\<forall>p\<in>set (subscribers w). sorted_wrt (<) (snd p))"

text \<open>What a call leaves alone, in a well-formed state.\<close>

definition frame :: "'d call \<Rightarrow> 'd world \<Rightarrow> 'd world \<Rightarrow> bool" where
  "frame c w w' \<longleftrightarrow>
     quitCh w' = quitCh w \<and>
     closed w' = (closed w \<or> is_Close c) \<and>
     closed_chans w \<subseteq> closed_chans w' \<and>
     (\<not> is_Close c \<longrightarrow> fst ` set (subscribers w) \<subseteq> fst ` set (subscribers w')) \<and>
     (closed w \<longrightarrow> (\<forall>t. set (subs_at (subscribers w') t) \<subseteq> set (subs_at (subscribers w) t))) \<and>
     set (delivered_to (trace w')) \<subseteq> set (delivered_to (trace w)) \<union> (UNIV - closed_chans w)"

subsection \<open>Two states for examples\<close>

text \<open>
  A bus with two subscribers of topic a and one of topic b, the first and the third
  being received from; and a bus that was closed with one subscriber.
\<close>

definition open_bus :: "nat world" where
  "open_bus =
     run [Call_Subscribe ''a'', Call_Subscribe ''a'', Call_Subscribe ''b'', Receivers {1, 3}]
       NewEventBus"

definition closed_bus :: "nat world" where
  "closed_bus = run [Call_Subscribe ''a'', Call_Close (\<lambda>c. QuitCase)] NewEventBus"

section \<open>Lists, the map and the trace\<close>

lemma closes_append [simp]: "closes (xs @ ys) = closes xs @ closes ys"
  by (induction xs rule: closes.induct) auto

lemma delivered_to_append [simp]: "delivered_to (xs @ ys) = delivered_to xs @ delivered_to ys"
  by (induction xs rule: delivered_to.induct) auto

lemma subs_at_update [simp]:
  "subs_at (AList.update k v m) t = (if t = k then v else subs_at m t)"
  by (simp add: subs_at_def update_conv')

lemma subs_at_Nil [simp]: "subs_at [] t = []"
  by (simp add: subs_at_def)

lemma subs_at_Cons:
  "subs_at ((k, cs) # m) t = (if t = k then cs else subs_at m t)"
  by (simp add: subs_at_def)

lemma subs_at_not_key: "t \<notin> fst ` set m \<Longrightarrow> subs_at m t = []"
  by (induction m) (auto simp: subs_at_Cons)

lemma chans_of_Nil [simp]: "chans_of [] = []"
  by (simp add: chans_of_def)

lemma chans_of_Cons [simp]: "chans_of (p # m) = snd p @ chans_of m"
  by (simp add: chans_of_def)

lemma set_subs_at_chans: "set (subs_at m t) \<subseteq> set (chans_of m)"
  by (induction m) (auto simp: subs_at_Cons split: if_splits)

lemma subs_at_in_entries: "subs_at m t \<noteq> [] \<Longrightarrow> (t, subs_at m t) \<in> set m"
  by (auto simp: subs_at_def split: option.splits dest: map_of_SomeD)

lemma find_sub_None: "(find_sub c subs i = None) = (c \<notin> set subs)"
  by (induction subs arbitrary: i) auto

lemma find_sub_Some:
  "find_sub c subs k = Some i \<Longrightarrow>
     k \<le> i \<and> take (i - k) subs @ drop (Suc (i - k)) subs = remove1 c subs"
proof (induction subs arbitrary: k)
  case Nil
  then show ?case by simp
next
  case (Cons sub rest)
  show ?case
  proof (cases "sub = c")
    case True
    with Cons.prems show ?thesis by simp
  next
    case False
    with Cons.prems have f: "find_sub c rest (Suc k) = Some i" by simp
    from Cons.IH [OF f] have le: "Suc k \<le> i"
      and eq: "take (i - Suc k) rest @ drop (Suc (i - Suc k)) rest = remove1 c rest"
      by simp_all
    from le have "i - k = Suc (i - Suc k)" by simp
    with False eq le show ?thesis by simp
  qed
qed

lemma slices_Delete_found:
  "find_sub c subs 0 = Some i \<Longrightarrow> slices_Delete subs i (Suc i) = remove1 c subs"
  using find_sub_Some [of c subs 0 i] by (simp add: slices_Delete_def)

lemma keys_update: "fst ` set (AList.update k v m) = insert k (fst ` set m)"
  by (simp add: dom_update)

lemma chans_of_update_append:
  "set (chans_of (AList.update t (subs_at m t @ [ch]) m)) = insert ch (set (chans_of m))"
proof (induction m)
  case Nil
  show ?case by simp
next
  case (Cons p m)
  obtain k cs where p: "p = (k, cs)" by (cases p)
  show ?case
  proof (cases "k = t")
    case True
    with p show ?thesis by (simp add: subs_at_Cons)
  next
    case False
    with p Cons.IH show ?thesis by (simp add: subs_at_Cons)
  qed
qed

lemma distinct_chans_of_update_append:
  "distinct (chans_of m) \<Longrightarrow> ch \<notin> set (chans_of m) \<Longrightarrow>
     distinct (chans_of (AList.update t (subs_at m t @ [ch]) m))"
proof (induction m)
  case Nil
  then show ?case by simp
next
  case (Cons p m)
  obtain k cs where p: "p = (k, cs)" by (cases p)
  show ?case
  proof (cases "k = t")
    case True
    with Cons.prems p show ?thesis by (simp add: subs_at_Cons)
  next
    case False
    from Cons.prems have "distinct (chans_of (AList.update t (subs_at m t @ [ch]) m))"
      by (intro Cons.IH) simp_all
    moreover have "set (chans_of (AList.update t (subs_at m t @ [ch]) m)) = insert ch (set (chans_of m))"
      by (rule chans_of_update_append)
    ultimately show ?thesis using Cons.prems p False
      by (simp add: subs_at_Cons)
  qed
qed

lemma chans_of_update_remove1:
  "distinct (chans_of m) \<Longrightarrow> c \<in> set (subs_at m t) \<Longrightarrow>
     set (chans_of (AList.update t (remove1 c (subs_at m t)) m)) = set (chans_of m) - {c}
     \<and> distinct (chans_of (AList.update t (remove1 c (subs_at m t)) m))"
proof (induction m)
  case Nil
  then show ?case by simp
next
  case (Cons p m)
  obtain k cs where p: "p = (k, cs)" by (cases p)
  show ?case
  proof (cases "k = t")
    case True
    with Cons.prems p have c: "c \<in> set cs" "distinct cs" "set cs \<inter> set (chans_of m) = {}"
      "distinct (chans_of m)"
      by (simp_all add: subs_at_Cons)
    then have "set (remove1 c cs) = set cs - {c}" "c \<notin> set (chans_of m)"
      by auto
    with c True p show ?thesis
      by (simp add: subs_at_Cons) blast
  next
    case False
    with Cons.prems p have c: "c \<in> set (subs_at m t)" and d: "distinct (chans_of m)"
      by (simp_all add: subs_at_Cons)
    from Cons.IH [OF d c]
    have ih: "set (chans_of (AList.update t (remove1 c (subs_at m t)) m)) = set (chans_of m) - {c}"
      "distinct (chans_of (AList.update t (remove1 c (subs_at m t)) m))"
      by simp_all
    from c have "c \<in> set (chans_of m)"
      using set_subs_at_chans [of m t] by blast
    with Cons.prems p have "c \<notin> set cs" "distinct cs" "set cs \<inter> set (chans_of m) = {}"
      by auto
    with ih p False show ?thesis
      by (simp add: subs_at_Cons) blast
  qed
qed

lemma entries_update:
  "p \<in> set (AList.update k v m) \<Longrightarrow> p = (k, v) \<or> p \<in> set m"
  by (induction m) (auto split: if_splits)

subsection \<open>Subscribe and Unsubscribe\<close>

lemma well_formed_NewEventBus: "well_formed NewEventBus"
  by (simp add: well_formed_def NewEventBus_def)

lemma Subscribe_closed:
  "closed w \<Longrightarrow> next_chan w \<notin> closed_chans w \<Longrightarrow>
     Subscribe t w =
       (Returns (next_chan w),
        w\<lparr>next_chan := Suc (next_chan w),
           closed_chans := insert (next_chan w) (closed_chans w),
           trace := trace w @ [Closed (next_chan w)]\<rparr>)"
  by (simp add: Subscribe_def make_chan_def close_chan_def)

lemma Subscribe_open:
  "\<not> closed w \<Longrightarrow>
     Subscribe t w =
       (Returns (next_chan w),
        w\<lparr>next_chan := Suc (next_chan w),
           subscribers :=
             AList.update t (subs_at (subscribers w) t @ [next_chan w]) (subscribers w)\<rparr>)"
  by (simp add: Subscribe_def make_chan_def)

lemma find_sub_absent: "c \<notin> set subs \<Longrightarrow> find_sub c subs i = None"
  by (simp add: find_sub_None)

lemma find_sub_present: "c \<in> set subs \<Longrightarrow> \<exists>i. find_sub c subs 0 = Some i"
  using find_sub_None [of c subs 0] by (cases "find_sub c subs 0") auto

lemma Unsubscribe_absent:
  "subscriber \<notin> set (subs_at (subscribers w) t) \<Longrightarrow> Unsubscribe t subscriber w = (Returns (), w)"
  by (simp add: Unsubscribe_def Let_def find_sub_absent)

lemma Unsubscribe_present:
  assumes "subscriber \<in> set (subs_at (subscribers w) t)" and "subscriber \<notin> closed_chans w"
  shows "Unsubscribe t subscriber w =
       (Returns (),
        w\<lparr>subscribers :=
             AList.update t (remove1 subscriber (subs_at (subscribers w) t)) (subscribers w),
           closed_chans := insert subscriber (closed_chans w),
           trace := trace w @ [Closed subscriber]\<rparr>)"
proof -
  from assms(1) obtain i where i: "find_sub subscriber (subs_at (subscribers w) t) 0 = Some i"
    using find_sub_present by blast
  with assms(2) show ?thesis
    by (simp add: Unsubscribe_def Let_def close_chan_def slices_Delete_found)
qed

lemma subscribers_Unsubscribe:
  "subscribers (snd (Unsubscribe t c w)) =
     (if c \<in> set (subs_at (subscribers w) t)
      then AList.update t (remove1 c (subs_at (subscribers w) t)) (subscribers w)
      else subscribers w)"
proof (cases "c \<in> set (subs_at (subscribers w) t)")
  case False
  then show ?thesis by (simp add: Unsubscribe_absent)
next
  case True
  then obtain i where "find_sub c (subs_at (subscribers w) t) 0 = Some i"
    using find_sub_present by blast
  with True show ?thesis
    by (simp add: Unsubscribe_def Let_def close_chan_def slices_Delete_found)
qed

lemma sorted_wrt_remove1: "sorted_wrt P xs \<Longrightarrow> sorted_wrt P (remove1 x xs)"
  by (induction xs) (auto dest: notin_set_remove1)

lemma sorted_wrt_snoc_less:
  "sorted_wrt (<) xs \<Longrightarrow> \<forall>x\<in>set xs. x < (n::nat) \<Longrightarrow> sorted_wrt (<) (xs @ [n])"
  by (simp add: sorted_wrt_append)

lemma sorted_subs_at:
  "\<forall>p\<in>set m. sorted_wrt (<) (snd p) \<Longrightarrow> sorted_wrt (<) (subs_at m t)"
proof (cases "subs_at m t = []")
  case True
  then show ?thesis by simp
next
  case False
  assume a: "\<forall>p\<in>set m. sorted_wrt (<) (snd p)"
  from False have "(t, subs_at m t) \<in> set m" by (rule subs_at_in_entries)
  with a have "sorted_wrt (<) (snd (t, subs_at m t))" by blast
  then show ?thesis by simp
qed

lemma well_formed_Subscribe: "well_formed w \<Longrightarrow> well_formed (snd (Subscribe t w))"
proof (cases "closed w")
  case True
  assume w: "well_formed w"
  then have "next_chan w \<notin> closed_chans w" by (auto simp: well_formed_def)
  with True w show ?thesis
    by (simp add: Subscribe_closed) (auto simp: well_formed_def less_Suc_eq)
next
  case False
  assume w: "well_formed w"
  let ?n = "next_chan w"
  let ?m = "subscribers w"
  let ?m' = "AList.update t (subs_at ?m t @ [?n]) ?m"
  from w have fresh: "?n \<notin> set (chans_of ?m)" by (auto simp: well_formed_def)
  have set': "set (chans_of ?m') = insert ?n (set (chans_of ?m))"
    by (rule chans_of_update_append)
  from w fresh have d: "distinct (chans_of ?m')"
    by (intro distinct_chans_of_update_append) (simp_all add: well_formed_def)
  from w have k: "distinct (map fst ?m')"
    by (simp add: well_formed_def distinct_update)
  from w False set' d k show ?thesis
    by (simp add: Subscribe_open) (auto simp: well_formed_def less_Suc_eq)
qed

lemma well_formed_Unsubscribe: "well_formed w \<Longrightarrow> well_formed (snd (Unsubscribe t c w))"
proof (cases "c \<in> set (subs_at (subscribers w) t)")
  case False
  assume "well_formed w"
  with False show ?thesis by (simp add: Unsubscribe_absent)
next
  case True
  assume w: "well_formed w"
  let ?m = "subscribers w"
  let ?m' = "AList.update t (remove1 c (subs_at ?m t)) ?m"
  from True have cin: "c \<in> set (chans_of ?m)" using set_subs_at_chans [of ?m t] by blast
  with w have copen: "c \<notin> closed_chans w" and cq: "c \<noteq> quitCh w" by (auto simp: well_formed_def)
  from w True have set': "set (chans_of ?m') = set (chans_of ?m) - {c}"
    and d: "distinct (chans_of ?m')"
    using chans_of_update_remove1 [of ?m c t] by (simp_all add: well_formed_def)
  from w have k: "distinct (map fst ?m')"
    by (simp add: well_formed_def distinct_update)
  from w copen cq cin set' d k show ?thesis
    by (simp add: Unsubscribe_present [OF True copen]) (auto simp: well_formed_def)
qed

subsection \<open>Publish, PublishSync and the delivery goroutines\<close>

lemma Publish_loop_eq:
  "Publish_loop subs d w =
     w\<lparr>wg := wg w + length subs, goroutines := goroutines w @ map (\<lambda>c. (c, d)) subs\<rparr>"
  by (induction subs arbitrary: w) simp_all

lemma Publish_open:
  "\<not> closed w \<Longrightarrow>
     Publish t d w =
       (Returns (),
        w\<lparr>wg := wg w + length (subs_at (subscribers w) t),
           goroutines := goroutines w @ map (\<lambda>c. (c, d)) (subs_at (subscribers w) t)\<rparr>)"
  by (simp add: Publish_def slices_Clone_def Publish_loop_eq)

lemma well_formed_Publish: "well_formed w \<Longrightarrow> well_formed (snd (Publish t d w))"
proof (cases "closed w")
  case True
  assume "well_formed w"
  with True show ?thesis by (simp add: Publish_def)
next
  case False
  assume w: "well_formed w"
  then have "\<forall>c\<in>set (subs_at (subscribers w) t). c < next_chan w"
    using set_subs_at_chans [of "subscribers w" t] by (auto simp: well_formed_def)
  with w False show ?thesis
    by (simp add: Publish_open) (auto simp: well_formed_def)
qed

lemma send_event_trace [simp]: "send_event (w\<lparr>trace := es\<rparr>) = send_event w"
  by (simp add: send_event_def fun_eq_iff)

lemma PublishSync_loop_eq:
  "PublishSync_loop i subs d errs w =
     (if \<forall>c\<in>set subs. c \<in> closed_chans w \<union> receiving w
      then Returns (errs @ map (\<lambda>p. SubscriberPanic (fst p) SendOnClosedChannel)
                           (filter (\<lambda>p. snd p \<in> closed_chans w) (enumerate i subs)))
      else Blocks,
      w\<lparr>trace := trace w @
           map (send_event w d) (takeWhile (\<lambda>c. c \<in> closed_chans w \<union> receiving w) subs)\<rparr>)"
proof (induction subs arbitrary: i errs w)
  case Nil
  show ?case by simp
next
  case (Cons sub rest)
  show ?case
    by (simp add: send_def Cons.IH send_event_def) blast
qed

lemma PublishSync_deliver_eq:
  "PublishSync_deliver subs d w =
     (if \<forall>c\<in>set subs. c \<in> closed_chans w \<union> receiving w
      then Returns
             (case map (\<lambda>p. SubscriberPanic (fst p) SendOnClosedChannel)
                       (filter (\<lambda>p. snd p \<in> closed_chans w) (enumerate 0 subs)) of
                [] \<Rightarrow> None
              | e # es \<Rightarrow> Some (PublishSyncErrors (Suc (length es)) e))
      else Blocks,
      w\<lparr>trace := trace w @
           map (send_event w d) (takeWhile (\<lambda>c. c \<in> closed_chans w \<union> receiving w) subs)\<rparr>)"
  by (simp add: PublishSync_deliver_def PublishSync_loop_eq split: list.splits)

lemma delivered_to_send_events:
  "set (delivered_to (map (send_event w d) cs)) = set cs - closed_chans w"
  by (induction cs) (auto simp: send_event_def)

lemma closes_send_events: "closes (map (send_event w d) cs) = []"
  by (induction cs) (auto simp: send_event_def)

lemma well_formed_PublishSync: "well_formed w \<Longrightarrow> well_formed (snd (PublishSync t d w))"
proof (cases "closed w")
  case True
  assume "well_formed w"
  with True show ?thesis by (simp add: PublishSync_def)
next
  case False
  assume w: "well_formed w"
  let ?cs = "takeWhile (\<lambda>c. c \<in> closed_chans w \<union> receiving w) (subs_at (subscribers w) t)"
  have "set ?cs \<subseteq> set (subs_at (subscribers w) t)" by (auto dest: set_takeWhileD)
  with w have "\<forall>c\<in>set ?cs. c < next_chan w"
    using set_subs_at_chans [of "subscribers w" t] by (auto simp: well_formed_def)
  with w False show ?thesis
    by (auto simp: PublishSync_def slices_Clone_def PublishSync_deliver_eq
        closes_send_events delivered_to_send_events well_formed_def)
qed

lemma wg_Done_pos: "0 < wg w \<Longrightarrow> wg_Done w = (Returns (), w\<lparr>wg := wg w - 1\<rparr>)"
  by (simp add: wg_Done_def)

lemma goroutine_eq:
  "0 < wg w \<Longrightarrow>
     goroutine choice g w =
       (if fst g \<notin> closed_chans w \<union> receiving w \<and> quitCh w \<notin> closed_chans w
        then (Blocks, w)
        else (Returns (),
              w\<lparr>wg := wg w - 1, trace := trace w @ goroutine_events choice g w\<rparr>))"
  by (simp add: goroutine_def Let_def send_def wg_Done_def goroutine_events_def)

lemma closes_goroutine_events [simp]: "closes (goroutine_events choice g w) = []"
  by (simp add: goroutine_events_def)

lemma delivered_to_goroutine_events:
  "set (delivered_to (goroutine_events choice g w)) \<subseteq> {fst g} - closed_chans w"
  by (simp add: goroutine_events_def)

subsection \<open>Close, and the well-formed states\<close>

lemma run_goroutines_eq:
  assumes "quitCh w \<in> closed_chans w" and "length gs \<le> wg w"
  shows "\<exists>es. run_goroutines pick gs w =
           (Returns (),
            w\<lparr>goroutines := (if gs = [] then goroutines w else []),
               wg := wg w - length gs, trace := trace w @ es\<rparr>)
         \<and> closes es = [] \<and> set (delivered_to es) \<subseteq> fst ` set gs - closed_chans w"
  using assms
proof (induction gs arbitrary: w)
  case Nil
  have "run_goroutines pick [] w =
      (Returns (), w\<lparr>goroutines := (if [] = ([] :: (chan \<times> 'a) list) then goroutines w else []),
         wg := wg w - length ([] :: (chan \<times> 'a) list), trace := trace w @ []\<rparr>)"
    by simp
  then show ?case by (intro exI [of _ "[]"]) simp
next
  case (Cons g gs)
  from Cons.prems have pos: "0 < wg w" by simp
  define es where "es = goroutine_events (pick (fst g)) g w"
  have es: "goroutine (pick (fst g)) g w =
      (Returns (), w\<lparr>wg := wg w - 1, trace := trace w @ es\<rparr>)"
    "closes es = []" "set (delivered_to es) \<subseteq> {fst g} - closed_chans w"
    using Cons.prems(1) pos delivered_to_goroutine_events [of "pick (fst g)" g w]
    by (simp_all add: goroutine_eq es_def)
  let ?w1 = "w\<lparr>wg := wg w - 1, trace := trace w @ es, goroutines := gs\<rparr>"
  from Cons.prems have "quitCh ?w1 \<in> closed_chans ?w1" "length gs \<le> wg ?w1" by simp_all
  from Cons.IH [OF this]
  obtain es' where es': "run_goroutines pick gs ?w1 =
      (Returns (),
       ?w1\<lparr>goroutines := (if gs = [] then goroutines ?w1 else []),
           wg := wg ?w1 - length gs, trace := trace ?w1 @ es'\<rparr>)"
    "closes es' = []" "set (delivered_to es') \<subseteq> fst ` set gs - closed_chans ?w1"
    by blast
  have "run_goroutines pick (g # gs) w =
      (Returns (), w\<lparr>goroutines := [], wg := wg w - length (g # gs), trace := trace w @ (es @ es')\<rparr>)"
    using es(1) es'(1) by simp
  moreover have "closes (es @ es') = []" using es(2) es'(2) by simp
  moreover have "set (delivered_to (es @ es')) \<subseteq> fst ` set (g # gs) - closed_chans w"
    using es(3) es'(3) by auto
  ultimately show ?case by (intro exI [of _ "es @ es'"]) simp
qed

lemma wg_Wait_eq:
  assumes "quitCh w \<in> closed_chans w" and "wg w = length (goroutines w)"
  shows "\<exists>es. wg_Wait pick w =
           (Returns (), w\<lparr>goroutines := [], wg := 0, trace := trace w @ es\<rparr>)
         \<and> closes es = [] \<and> set (delivered_to es) \<subseteq> fst ` set (goroutines w) - closed_chans w"
proof -
  from assms have "length (goroutines w) \<le> wg w" by simp
  from run_goroutines_eq [OF assms(1) this, of pick]
  obtain es where es: "run_goroutines pick (goroutines w) w =
           (Returns (),
            w\<lparr>goroutines := (if goroutines w = [] then goroutines w else []),
               wg := wg w - length (goroutines w), trace := trace w @ es\<rparr>)"
         "closes es = []" "set (delivered_to es) \<subseteq> fst ` set (goroutines w) - closed_chans w"
    by blast
  have "wg_Wait pick w = (Returns (), w\<lparr>goroutines := [], wg := 0, trace := trace w @ es\<rparr>)"
    using es(1) assms(2) by (simp add: wg_Wait_def)
  with es(2,3) show ?thesis by blast
qed

lemma close_subs_eq:
  "distinct cs \<Longrightarrow> set cs \<inter> closed_chans w = {} \<Longrightarrow>
     close_subs cs w =
       (Returns (),
        w\<lparr>closed_chans := closed_chans w \<union> set cs, trace := trace w @ map Closed cs\<rparr>)"
proof (induction cs arbitrary: w)
  case Nil
  show ?case by simp
next
  case (Cons c cs)
  let ?w1 = "w\<lparr>closed_chans := insert c (closed_chans w), trace := trace w @ [Closed c]\<rparr>"
  from Cons.prems have c: "close_chan c w = (Returns (), ?w1)"
    by (simp add: close_chan_def)
  from Cons.prems have "distinct cs" "set cs \<inter> closed_chans ?w1 = {}" by auto
  from Cons.IH [OF this] c show ?case by simp
qed

lemma delete_filter: "AList.delete k m = filter (\<lambda>p. fst p \<noteq> k) m"
  by (induction m) auto

lemma close_topics_eq:
  "distinct (chans_of es) \<Longrightarrow> set (chans_of es) \<inter> closed_chans w = {} \<Longrightarrow>
     close_topics es w =
       (Returns (),
        w\<lparr>subscribers := filter (\<lambda>p. fst p \<notin> fst ` set es) (subscribers w),
           closed_chans := closed_chans w \<union> set (chans_of es),
           trace := trace w @ map Closed (chans_of es)\<rparr>)"
proof (induction es arbitrary: w)
  case Nil
  show ?case by simp
next
  case (Cons e es)
  let ?w1 = "w\<lparr>closed_chans := closed_chans w \<union> set (snd e),
               trace := trace w @ map Closed (snd e)\<rparr>"
  let ?w2 = "?w1\<lparr>subscribers := AList.delete (fst e) (subscribers ?w1)\<rparr>"
  from Cons.prems have c: "close_subs (snd e) w = (Returns (), ?w1)"
    by (intro close_subs_eq) auto
  from Cons.prems have "distinct (chans_of es)" "set (chans_of es) \<inter> closed_chans ?w2 = {}"
    by auto
  from Cons.IH [OF this] c show ?case
    by (simp add: delete_filter Un_assoc)
qed

lemma closes_map_Closed [simp]: "closes (map Closed cs) = cs"
  by (induction cs) simp_all

lemma delivered_to_map_Closed [simp]: "delivered_to (map Closed cs) = []"
  by (induction cs) simp_all

lemma Close_open:
  assumes w: "well_formed w" and o: "\<not> closed w"
  shows "\<exists>es. Close pick w =
           (Returns (),
            w\<lparr>closed := True, subscribers := [], goroutines := [], wg := 0,
               closed_chans := insert (quitCh w) (closed_chans w) \<union> set (chans_of (subscribers w)),
               trace := trace w @ Closed (quitCh w) # es @ map Closed (chans_of (subscribers w))\<rparr>)
         \<and> closes es = [] \<and> set (delivered_to es) \<subseteq> fst ` set (goroutines w) - closed_chans w"
proof -
  let ?w1 = "w\<lparr>closed := True, closed_chans := insert (quitCh w) (closed_chans w),
               trace := trace w @ [Closed (quitCh w)]\<rparr>"
  from w o have q: "quitCh w \<notin> closed_chans w" by (simp add: well_formed_def)
  then have c: "close_chan (quitCh w) (w\<lparr>closed := True\<rparr>) = (Returns (), ?w1)"
    by (simp add: close_chan_def)
  from w have "quitCh ?w1 \<in> closed_chans ?w1" "wg ?w1 = length (goroutines ?w1)"
    by (simp_all add: well_formed_def)
  from wg_Wait_eq [OF this, of pick]
  obtain es where es: "wg_Wait pick ?w1 =
           (Returns (), ?w1\<lparr>goroutines := [], wg := 0, trace := trace ?w1 @ es\<rparr>)"
         "closes es = []"
         "set (delivered_to es) \<subseteq> fst ` set (goroutines ?w1) - closed_chans ?w1"
    by blast
  let ?w2 = "?w1\<lparr>goroutines := [], wg := 0, trace := trace ?w1 @ es\<rparr>"
  from w have "distinct (chans_of (subscribers ?w2))"
    "set (chans_of (subscribers ?w2)) \<inter> closed_chans ?w2 = {}"
    by (auto simp: well_formed_def)
  from close_topics_eq [OF this]
  have t: "close_topics (subscribers ?w2) ?w2 =
       (Returns (),
        ?w2\<lparr>subscribers := filter (\<lambda>p. fst p \<notin> fst ` set (subscribers ?w2)) (subscribers ?w2),
           closed_chans := closed_chans ?w2 \<union> set (chans_of (subscribers ?w2)),
           trace := trace ?w2 @ map Closed (chans_of (subscribers ?w2))\<rparr>)" .
  have f: "filter (\<lambda>p. fst p \<notin> fst ` set (subscribers w)) (subscribers w) = []"
    by (simp add: filter_empty_conv)
  have "Close pick w =
           (Returns (),
            w\<lparr>closed := True, subscribers := [], goroutines := [], wg := 0,
               closed_chans := insert (quitCh w) (closed_chans w) \<union> set (chans_of (subscribers w)),
               trace := trace w @ Closed (quitCh w) # es @ map Closed (chans_of (subscribers w))\<rparr>)"
    using o c es(1) t f by (simp add: Close_def)
  moreover from es(3) have "set (delivered_to es) \<subseteq> fst ` set (goroutines w) - closed_chans w"
    by auto
  ultimately show ?thesis using es(2) by blast
qed

lemma well_formed_Close: "well_formed w \<Longrightarrow> well_formed (snd (Close pick w))"
proof (cases "closed w")
  case True
  assume "well_formed w"
  with True show ?thesis by (simp add: Close_def)
next
  case False
  assume w: "well_formed w"
  from Close_open [OF w False, of pick]
  obtain es where es: "Close pick w =
           (Returns (),
            w\<lparr>closed := True, subscribers := [], goroutines := [], wg := 0,
               closed_chans := insert (quitCh w) (closed_chans w) \<union> set (chans_of (subscribers w)),
               trace := trace w @ Closed (quitCh w) # es @ map Closed (chans_of (subscribers w))\<rparr>)"
         "closes es = []" "set (delivered_to es) \<subseteq> fst ` set (goroutines w) - closed_chans w"
    by blast
  from w es(3) have d: "\<forall>c\<in>set (delivered_to es). c < next_chan w"
    by (auto simp: well_formed_def)
  from w False es(2) d show ?thesis
    by (simp add: es(1)) (auto simp: well_formed_def)
qed

lemma well_formed_schedule: "well_formed w \<Longrightarrow> well_formed (schedule k choice w)"
proof (cases "k < length (goroutines w)")
  case False
  assume "well_formed w"
  with False show ?thesis by (simp add: schedule_def)
next
  case True
  assume w: "well_formed w"
  with True have pos: "0 < wg w" by (cases "goroutines w") (simp_all add: well_formed_def)
  let ?g = "goroutines w ! k"
  from True have gin: "?g \<in> set (goroutines w)" by simp
  have s: "set (take k (goroutines w) @ drop (Suc k) (goroutines w)) \<subseteq> set (goroutines w)"
    by (auto dest: in_set_takeD in_set_dropD)
  have l: "length (take k (goroutines w) @ drop (Suc k) (goroutines w)) = length (goroutines w) - 1"
    using True by simp
  from w gin have "\<forall>c\<in>set (delivered_to (goroutine_events choice ?g w)). c < next_chan w"
    using delivered_to_goroutine_events [of choice ?g w] by (auto simp: well_formed_def)
  with w True s l show ?thesis
    by (simp add: schedule_def goroutine_eq [OF pos]) (auto simp: well_formed_def)
qed

lemma well_formed_Receivers: "well_formed w \<Longrightarrow> well_formed (w\<lparr>receiving := cs\<rparr>)"
  by (simp add: well_formed_def)

lemma well_formed_exec: "well_formed w \<Longrightarrow> well_formed (exec c w)"
  by (cases c) (simp_all add: well_formed_Subscribe well_formed_Unsubscribe well_formed_Publish well_formed_PublishSync well_formed_Close
      well_formed_schedule well_formed_Receivers)

lemma well_formed_run: "well_formed w \<Longrightarrow> well_formed (run cs w)"
  by (induction cs arbitrary: w) (simp_all add: well_formed_exec)

subsection \<open>What a call leaves alone\<close>

lemma attempted_append [simp]: "attempted (xs @ ys) = attempted xs @ attempted ys"
  by (induction xs rule: attempted.induct) auto

lemma attempted_send_events [simp]: "attempted (map (send_event w d) cs) = cs"
  by (induction cs) (auto simp: send_event_def)

lemma frame_Subscribe: "well_formed w \<Longrightarrow> frame (Call_Subscribe t) w (snd (Subscribe t w))"
proof (cases "closed w")
  case True
  assume w: "well_formed w"
  then have "next_chan w \<notin> closed_chans w" by (auto simp: well_formed_def)
  with True show ?thesis
    by (auto simp: Subscribe_closed frame_def)
next
  case False
  then show ?thesis
    by (auto simp: Subscribe_open frame_def keys_update)
qed

lemma frame_Unsubscribe: "well_formed w \<Longrightarrow> frame (Call_Unsubscribe t c) w (snd (Unsubscribe t c w))"
proof (cases "c \<in> set (subs_at (subscribers w) t)")
  case False
  then show ?thesis by (auto simp: Unsubscribe_absent frame_def)
next
  case True
  assume w: "well_formed w"
  with True have o: "c \<notin> closed_chans w"
    using set_subs_at_chans [of "subscribers w" t] by (auto simp: well_formed_def)
  have "set (remove1 c (subs_at (subscribers w) t)) \<subseteq> set (subs_at (subscribers w) t)"
    by (rule set_remove1_subset)
  then show ?thesis
    by (auto simp: Unsubscribe_present [OF True o] frame_def keys_update)
qed

lemma frame_Publish: "frame (Call_Publish t d) w (snd (Publish t d w))"
  by (cases "closed w") (auto simp: Publish_def slices_Clone_def Publish_loop_eq frame_def)

lemma frame_PublishSync: "frame (Call_PublishSync t d) w (snd (PublishSync t d w))"
proof (cases "closed w")
  case True
  then show ?thesis by (auto simp: PublishSync_def frame_def)
next
  case False
  have "set (takeWhile P cs) - S \<subseteq> UNIV - S" for P and cs :: "chan list" and S by blast
  with False show ?thesis
    by (auto simp: PublishSync_def slices_Clone_def PublishSync_deliver_eq frame_def
        delivered_to_send_events)
qed

lemma frame_Close: "well_formed w \<Longrightarrow> frame (Call_Close pick) w (snd (Close pick w))"
proof (cases "closed w")
  case True
  then show ?thesis by (auto simp: Close_def frame_def)
next
  case False
  assume w: "well_formed w"
  from Close_open [OF w False, of pick]
  obtain es where es: "Close pick w =
           (Returns (),
            w\<lparr>closed := True, subscribers := [], goroutines := [], wg := 0,
               closed_chans := insert (quitCh w) (closed_chans w) \<union> set (chans_of (subscribers w)),
               trace := trace w @ Closed (quitCh w) # es @ map Closed (chans_of (subscribers w))\<rparr>)"
         "closes es = []" "set (delivered_to es) \<subseteq> fst ` set (goroutines w) - closed_chans w"
    by blast
  from es(3) False show ?thesis
    by (auto simp: es(1) frame_def)
qed

lemma frame_schedule: "well_formed w \<Longrightarrow> frame (Run_goroutine k choice) w (schedule k choice w)"
proof (cases "k < length (goroutines w)")
  case False
  then show ?thesis by (auto simp: schedule_def frame_def)
next
  case True
  assume w: "well_formed w"
  with True have pos: "0 < wg w" by (cases "goroutines w") (simp_all add: well_formed_def)
  from delivered_to_goroutine_events [of choice "goroutines w ! k" w]
  show ?thesis
    by (auto simp: schedule_def goroutine_eq [OF pos] frame_def)
qed

lemma frame_exec: "well_formed w \<Longrightarrow> frame c w (exec c w)"
proof (cases c)
  case (Receivers cs)
  then show ?thesis by (auto simp: frame_def)
next
  case Call_Topics
  then show ?thesis by (auto simp: frame_def)
next
  case (Call_SubscriberCount t)
  then show ?thesis by (auto simp: frame_def)
qed (simp_all add: frame_Subscribe frame_Unsubscribe frame_Publish frame_PublishSync
      frame_Close frame_schedule)

lemma run_append: "run (xs @ ys) w = run ys (run xs w)"
  by (induction xs arbitrary: w) simp_all

lemma quitCh_run: "well_formed w \<Longrightarrow> quitCh (run cs w) = quitCh w"
proof (induction cs arbitrary: w)
  case Nil
  show ?case by simp
next
  case (Cons c cs)
  from Cons.prems have "quitCh (exec c w) = quitCh w" "well_formed (exec c w)"
    using frame_exec [of w c] by (simp_all add: frame_def well_formed_exec)
  with Cons.IH [of "exec c w"] show ?case by simp
qed

lemma closed_run: "well_formed w \<Longrightarrow> closed (run cs w) = (closed w \<or> list_ex is_Close cs)"
proof (induction cs arbitrary: w)
  case Nil
  show ?case by simp
next
  case (Cons c cs)
  from Cons.prems have "closed (exec c w) = (closed w \<or> is_Close c)" "well_formed (exec c w)"
    using frame_exec [of w c] by (simp_all add: frame_def well_formed_exec)
  with Cons.IH [of "exec c w"] show ?case by auto
qed

lemma topics_run:
  "well_formed w \<Longrightarrow> \<not> list_ex is_Close cs \<Longrightarrow> t \<in> set (Topics w) \<Longrightarrow> t \<in> set (Topics (run cs w))"
proof (induction cs arbitrary: w)
  case Nil
  then show ?case by simp
next
  case (Cons c cs)
  from Cons.prems have "t \<in> set (Topics (exec c w))" "well_formed (exec c w)"
    using frame_exec [of w c] by (auto simp: frame_def well_formed_exec Topics_def)
  with Cons.IH [of "exec c w"] Cons.prems show ?case by simp
qed

lemma closed_bus_run:
  assumes "well_formed w" and "closed w" and "c \<in> closed_chans w" and "c \<notin> set (delivered_to (trace w))"
  shows "closed (run cs w) \<and> c \<in> closed_chans (run cs w)
     \<and> c \<notin> set (delivered_to (trace (run cs w)))
     \<and> (\<forall>t. set (subs_at (subscribers (run cs w)) t) \<subseteq> set (subs_at (subscribers w) t))"
  using assms
proof (induction cs arbitrary: w)
  case Nil
  then show ?case by simp
next
  case (Cons a cs)
  let ?w = "exec a w"
  from Cons.prems have f: "frame a w ?w" and well_formed': "well_formed ?w"
    by (simp_all add: frame_exec well_formed_exec)
  from f Cons.prems have a: "closed ?w" "c \<in> closed_chans ?w"
    "c \<notin> set (delivered_to (trace ?w))"
    "\<forall>t. set (subs_at (subscribers ?w) t) \<subseteq> set (subs_at (subscribers w) t)"
    by (auto simp: frame_def)
  from Cons.IH [OF well_formed' a(1,2,3)] a(4) show ?case by auto
qed

subsection \<open>The order of registration\<close>

lemma in_order_NewEventBus: "in_order NewEventBus"
  by (simp add: in_order_def NewEventBus_def)

lemma in_order_Subscribe:
  assumes w: "well_formed w" and i: "in_order w"
  shows "in_order (snd (Subscribe t w))"
proof (cases "closed w")
  case True
  from w have "next_chan w \<notin> closed_chans w" by (auto simp: well_formed_def)
  with True i show ?thesis by (simp add: Subscribe_closed in_order_def)
next
  case False
  let ?n = "next_chan w"
  let ?m = "subscribers w"
  have "sorted_wrt (<) (subs_at ?m t @ [?n])"
  proof (rule sorted_wrt_snoc_less)
    from i show "sorted_wrt (<) (subs_at ?m t)" by (simp add: in_order_def sorted_subs_at)
    from w show "\<forall>x\<in>set (subs_at ?m t). x < ?n"
      using set_subs_at_chans [of ?m t] by (auto simp: well_formed_def)
  qed
  with i False show ?thesis
    by (auto simp: Subscribe_open in_order_def dest!: entries_update)
qed

lemma in_order_Unsubscribe:
  assumes i: "in_order w"
  shows "in_order (snd (Unsubscribe t c w))"
proof -
  from i have "sorted_wrt (<) (remove1 c (subs_at (subscribers w) t))"
    by (simp add: in_order_def sorted_subs_at sorted_wrt_remove1)
  with i show ?thesis
    by (auto simp: subscribers_Unsubscribe in_order_def dest!: entries_update)
qed

lemma subscribers_Publish: "subscribers (snd (Publish t d w)) = subscribers w"
  by (simp add: Publish_def slices_Clone_def Publish_loop_eq)

lemma subscribers_PublishSync: "subscribers (snd (PublishSync t d w)) = subscribers w"
  by (simp add: PublishSync_def slices_Clone_def PublishSync_deliver_eq)

lemma subscribers_schedule: "well_formed w \<Longrightarrow> subscribers (schedule k choice w) = subscribers w"
proof (cases "k < length (goroutines w)")
  case False
  then show ?thesis by (simp add: schedule_def)
next
  case True
  assume "well_formed w"
  with True have pos: "0 < wg w" by (cases "goroutines w") (simp_all add: well_formed_def)
  show ?thesis by (simp add: schedule_def goroutine_eq [OF pos])
qed

lemma in_order_Close:
  assumes w: "well_formed w" and i: "in_order w"
  shows "in_order (snd (Close pick w))"
proof (cases "closed w")
  case True
  with i show ?thesis by (simp add: Close_def)
next
  case False
  from Close_open [OF w False, of pick] show ?thesis by (auto simp: in_order_def)
qed

lemma in_order_exec: "well_formed w \<Longrightarrow> in_order w \<Longrightarrow> in_order (exec c w)"
proof (cases c)
  case (Receivers cs)
  assume "in_order w"
  with Receivers show ?thesis by (simp add: in_order_def)
next
  case (Call_Publish t d)
  assume "in_order w"
  with Call_Publish show ?thesis by (simp add: in_order_def subscribers_Publish)
next
  case (Call_PublishSync t d)
  assume "in_order w"
  with Call_PublishSync show ?thesis by (simp add: in_order_def subscribers_PublishSync)
next
  case (Run_goroutine k choice)
  assume "well_formed w" "in_order w"
  with Run_goroutine show ?thesis by (simp add: in_order_def subscribers_schedule)
qed (simp_all add: in_order_Subscribe in_order_Unsubscribe in_order_Close)

lemma in_order_run: "well_formed w \<Longrightarrow> in_order w \<Longrightarrow> in_order (run cs w)"
  by (induction cs arbitrary: w) (simp_all add: in_order_exec well_formed_exec)

section \<open>The claims\<close>

lemma deliver_not_ErrBusClosed:
  "fst (PublishSync_deliver subs d w) \<noteq> Returns (Some ErrBusClosed)"
  by (auto simp: PublishSync_deliver_def split: prod.splits outcome.splits list.splits)

lemma well_formed_closed_bus: "well_formed closed_bus"
  unfolding closed_bus_def by (rule well_formed_run [OF well_formed_NewEventBus])

lemma well_formed_open_bus: "well_formed open_bus"
  unfolding open_bus_def by (rule well_formed_run [OF well_formed_NewEventBus])

lemma closed_bus_eq:
  "closed_bus =
     \<lparr>subscribers = [], closed = True, quitCh = 0, wg = 0, next_chan = 2,
      closed_chans = {0, 1}, receiving = {}, goroutines = [], trace = [Closed 0, Closed 1]\<rparr>"
  by (simp add: closed_bus_def NewEventBus_def Subscribe_def make_chan_def Close_def
      close_chan_def wg_Wait_def numeral_2_eq_2 insert_commute)

lemma open_bus_eq:
  "open_bus =
     \<lparr>subscribers = [(''a'', [1, 2]), (''b'', [3])], closed = False, quitCh = 0, wg = 0,
      next_chan = 4, closed_chans = {}, receiving = {1, 3}, goroutines = [], trace = []\<rparr>"
  by (simp add: open_bus_def NewEventBus_def Subscribe_def make_chan_def subs_at_def
      eval_nat_numeral)

text \<open>
  C3: \<open>PublishSync\<close> returns \<open>ErrBusClosed\<close> exactly when the bus is closed at the
  call, and then it returns at once: nothing is sent and the state is the one before.
\<close>

theorem PublishSync_ErrBusClosed_iff_closed:
  "(fst (PublishSync t d w) = Returns (Some ErrBusClosed)) = closed w
   \<and> (closed w \<longrightarrow> PublishSync t d w = (Returns (Some ErrBusClosed), w))"
  by (simp add: PublishSync_def deliver_not_ErrBusClosed)

theorem PublishSync_ErrBusClosed_iff_closed_witness:
  "closed closed_bus
   \<and> PublishSync ''a'' 7 closed_bus = (Returns (Some ErrBusClosed), closed_bus)
   \<and> \<not> closed open_bus
   \<and> fst (PublishSync ''a'' 7 open_bus) \<noteq> Returns (Some ErrBusClosed)"
proof -
  have c: "closed closed_bus" by (simp add: closed_bus_eq)
  have o: "\<not> closed open_bus" by (simp add: open_bus_eq)
  from c o PublishSync_ErrBusClosed_iff_closed [of "''a''" 7 closed_bus]
    PublishSync_ErrBusClosed_iff_closed [of "''a''" 7 open_bus]
  show ?thesis by simp
qed

text \<open>
  C9: on a closed bus \<open>Publish\<close> returns at once for every topic and payload: no
  goroutine is started, nothing panics, and the state is the one before.
\<close>

theorem Publish_closed_noop:
  "closed w \<Longrightarrow> Publish t d w = (Returns (), w)"
  by (simp add: Publish_def)

theorem Publish_closed_noop_witness:
  "closed closed_bus \<and> Publish ''a'' 7 closed_bus = (Returns (), closed_bus)"
proof -
  have c: "closed closed_bus" by (simp add: closed_bus_eq)
  from c Publish_closed_noop [OF c, of "''a''" 7] show ?thesis by simp
qed

text \<open>
  C10: on an open bus, \<open>PublishSync\<close> to a topic without subscribers, whether the
  topic is unknown or all its subscribers are gone, returns nil; nothing is sent and the
  state is the one before.
\<close>

theorem PublishSync_no_subscribers:
  "\<not> closed w \<Longrightarrow> t \<notin> set (Topics w) \<or> SubscriberCount t w = 0 \<Longrightarrow>
     PublishSync t d w = (Returns None, w)"
proof -
  assume o: "\<not> closed w" and "t \<notin> set (Topics w) \<or> SubscriberCount t w = 0"
  then have "subs_at (subscribers w) t = []"
    by (auto simp: Topics_def SubscriberCount_def subs_at_not_key)
  with o show ?thesis
    by (simp add: PublishSync_def PublishSync_deliver_def slices_Clone_def)
qed

theorem PublishSync_no_subscribers_witness:
  "\<not> closed open_bus \<and> ''c'' \<notin> set (Topics open_bus)
   \<and> PublishSync ''c'' 7 open_bus = (Returns None, open_bus)"
proof -
  have o: "\<not> closed open_bus" by (simp add: open_bus_eq)
  have t: "''c'' \<notin> set (Topics open_bus)" by (simp add: open_bus_eq Topics_def)
  then have "''c'' \<notin> set (Topics open_bus) \<or> SubscriberCount ''c'' open_bus = 0" by simp
  from o t PublishSync_no_subscribers [OF o this, of 7] show ?thesis by simp
qed

text \<open>
  The claims that follow are about calls that change the state. They are stated for the
  well-formed states, which are all the states a bus gets into.
\<close>

lemma distinct_subs_at: "distinct (chans_of m) \<Longrightarrow> distinct (subs_at m t)"
  by (induction m) (auto simp: subs_at_Cons)

lemma subs_at_Unsubscribe:
  "subs_at (subscribers (snd (Unsubscribe t c w))) t = remove1 c (subs_at (subscribers w) t)"
  by (simp add: subscribers_Unsubscribe remove1_idem)

lemma unsubscribe_all:
  "well_formed w \<Longrightarrow> set (subs_at (subscribers w) t) \<subseteq> set cs \<Longrightarrow>
     subs_at (subscribers (run (map (Call_Unsubscribe t) cs) w)) t = []"
proof (induction cs arbitrary: w)
  case Nil
  then show ?case by simp
next
  case (Cons c cs)
  let ?w = "snd (Unsubscribe t c w)"
  from Cons.prems have d: "distinct (subs_at (subscribers w) t)"
    by (simp add: well_formed_def distinct_subs_at)
  from Cons.prems have well_formed': "well_formed ?w" by (simp add: well_formed_Unsubscribe)
  from d Cons.prems have "set (subs_at (subscribers ?w) t) \<subseteq> set cs"
    by (auto simp: subs_at_Unsubscribe)
  from Cons.IH [OF well_formed' this] show ?case by simp
qed

lemma no_Close_unsubscribes: "\<not> list_ex is_Close (map (Call_Unsubscribe t) cs)"
  by (induction cs) simp_all

text \<open>
  C1: after \<open>Subscribe(t)\<close> on an open bus the topic \<open>t\<close> is among \<open>Topics()\<close>
  whatever is called next, as long as \<open>Close\<close> is not; and when then every subscriber
  of \<open>t\<close> is removed by \<open>Unsubscribe\<close>, the topic is still there, with
  \<open>SubscriberCount(t)\<close> zero.
\<close>

theorem topic_persists_until_Close:
  assumes "well_formed w" and "\<not> closed w" and "\<not> list_ex is_Close calls"
  shows "let w1 = run calls (snd (Subscribe t w));
             w2 = run (map (Call_Unsubscribe t) (subs_at (subscribers w1) t)) w1
         in t \<in> set (Topics w1) \<and> t \<in> set (Topics w2) \<and> SubscriberCount t w2 = 0"
proof -
  let ?w0 = "snd (Subscribe t w)"
  let ?w1 = "run calls ?w0"
  let ?w2 = "run (map (Call_Unsubscribe t) (subs_at (subscribers ?w1) t)) ?w1"
  from assms(1) have wf0: "well_formed ?w0" by (rule well_formed_Subscribe)
  from assms(2) have "t \<in> set (Topics ?w0)"
    by (simp add: Subscribe_open Topics_def keys_update)
  from topics_run [OF wf0 assms(3) this] have t1: "t \<in> set (Topics ?w1)" .
  from wf0 have wf1: "well_formed ?w1" by (rule well_formed_run)
  from topics_run [OF wf1 no_Close_unsubscribes t1] have t2: "t \<in> set (Topics ?w2)" .
  from unsubscribe_all [OF wf1, of t "subs_at (subscribers ?w1) t"]
  have "SubscriberCount t ?w2 = 0" by (simp add: SubscriberCount_def)
  with t1 t2 show ?thesis by (simp add: Let_def)
qed

theorem topic_persists_until_Close_witness:
  "well_formed open_bus \<and> \<not> closed open_bus
   \<and> \<not> list_ex is_Close [Call_Subscribe ''c'', Call_Unsubscribe ''c'' 4, Call_Publish ''c'' (7::nat)]
   \<and> (let w1 = run [Call_Subscribe ''c'', Call_Unsubscribe ''c'' 4, Call_Publish ''c'' 7]
                    (snd (Subscribe ''c'' open_bus));
           w2 = run (map (Call_Unsubscribe ''c'') (subs_at (subscribers w1) ''c'')) w1
       in ''c'' \<in> set (Topics w1) \<and> ''c'' \<in> set (Topics w2) \<and> SubscriberCount ''c'' w2 = 0)"
proof -
  have o: "\<not> closed open_bus" by (simp add: open_bus_eq)
  have n: "\<not> list_ex is_Close [Call_Subscribe ''c'', Call_Unsubscribe ''c'' 4, Call_Publish ''c'' (7::nat)]"
    by simp
  from topic_persists_until_Close [OF well_formed_open_bus o n, of "''c''"]
    well_formed_open_bus o n
  show ?thesis by blast
qed

text \<open>
  C4: \<open>Close\<close> on an open bus returns, and afterwards \<open>Topics()\<close> is empty and
  \<open>SubscriberCount\<close> is zero for every topic; every channel that was registered has
  been closed and the map has no key left.
\<close>

theorem Close_clears_registry:
  assumes "well_formed w" and "\<not> closed w"
  shows "fst (Close pick w) = Returns ()
     \<and> Topics (snd (Close pick w)) = []
     \<and> (\<forall>t. SubscriberCount t (snd (Close pick w)) = 0)
     \<and> subscribers (snd (Close pick w)) = []
     \<and> set (chans_of (subscribers w)) \<subseteq> closed_chans (snd (Close pick w))"
proof -
  from Close_open [OF assms, of pick]
  obtain es where "Close pick w =
           (Returns (),
            w\<lparr>closed := True, subscribers := [], goroutines := [], wg := 0,
               closed_chans := insert (quitCh w) (closed_chans w) \<union> set (chans_of (subscribers w)),
               trace := trace w @ Closed (quitCh w) # es @ map Closed (chans_of (subscribers w))\<rparr>)"
    by blast
  then show ?thesis by (auto simp: Topics_def SubscriberCount_def)
qed

theorem Close_clears_registry_witness:
  "well_formed open_bus \<and> \<not> closed open_bus
   \<and> fst (Close (\<lambda>c. SendCase) open_bus) = Returns ()
   \<and> Topics (snd (Close (\<lambda>c. SendCase) open_bus)) = []
   \<and> SubscriberCount ''a'' (snd (Close (\<lambda>c. SendCase) open_bus)) = 0
   \<and> set (chans_of (subscribers open_bus)) \<subseteq> closed_chans (snd (Close (\<lambda>c. SendCase) open_bus))"
proof -
  have o: "\<not> closed open_bus" by (simp add: open_bus_eq)
  from Close_clears_registry [OF well_formed_open_bus o, of "\<lambda>c. SendCase"]
    well_formed_open_bus o
  show ?thesis by blast
qed

text \<open>
  C5: on a closed bus \<open>Subscribe\<close> returns a channel that did not exist before and is
  closed already, and leaves the map as it was. Whatever is called afterwards, the bus
  stays closed, that channel stays closed and no value is ever handed to it, and no
  topic gets a channel it did not have.
\<close>

theorem Subscribe_on_closed_bus:
  assumes "well_formed w" and "closed w"
  shows "\<exists>c w'. Subscribe t w = (Returns c, w')
     \<and> next_chan w \<le> c \<and> c \<notin> set (chans_of (subscribers w)) \<and> c \<notin> closed_chans w
     \<and> c \<noteq> quitCh w \<and> c \<notin> fst ` set (goroutines w)
     \<and> c \<in> closed_chans w' \<and> subscribers w' = subscribers w
     \<and> (\<forall>calls. closed (run calls w')
            \<and> c \<in> closed_chans (run calls w')
            \<and> c \<notin> set (delivered_to (trace (run calls w')))
            \<and> (\<forall>t'. set (subs_at (subscribers (run calls w')) t')
                      \<subseteq> set (subs_at (subscribers w) t')))"
proof -
  let ?c = "next_chan w"
  let ?w = "w\<lparr>next_chan := Suc ?c, closed_chans := insert ?c (closed_chans w),
               trace := trace w @ [Closed ?c]\<rparr>"
  from assms(1) have fresh: "?c \<notin> closed_chans w" "?c \<notin> set (chans_of (subscribers w))"
    "?c \<noteq> quitCh w" "?c \<notin> fst ` set (goroutines w)" "?c \<notin> set (delivered_to (trace w))"
    by (auto simp: well_formed_def)
  from assms(2) fresh(1) have s: "Subscribe t w = (Returns ?c, ?w)"
    by (rule Subscribe_closed)
  from well_formed_Subscribe [OF assms(1), of t] s have well_formed': "well_formed ?w" by simp
  from assms(2) have c': "closed ?w" by simp
  have i: "?c \<in> closed_chans ?w" by simp
  from fresh(5) have d: "?c \<notin> set (delivered_to (trace ?w))" by simp
  have "closed (run calls ?w)
            \<and> ?c \<in> closed_chans (run calls ?w)
            \<and> ?c \<notin> set (delivered_to (trace (run calls ?w)))
            \<and> (\<forall>t'. set (subs_at (subscribers (run calls ?w)) t')
                      \<subseteq> set (subs_at (subscribers w) t'))" for calls
    using closed_bus_run [OF well_formed' c' i d, of calls] by simp
  with s fresh show ?thesis by auto
qed

theorem Subscribe_on_closed_bus_witness:
  "well_formed closed_bus \<and> closed closed_bus
   \<and> Subscribe ''a'' closed_bus =
        (Returns 2,
         closed_bus\<lparr>next_chan := 3, closed_chans := {0, 1, 2},
                     trace := [Closed 0, Closed 1, Closed 2]\<rparr>)
   \<and> (\<exists>c w'. Subscribe ''a'' closed_bus = (Returns c, w')
        \<and> c \<in> closed_chans w' \<and> subscribers w' = subscribers closed_bus
        \<and> (\<forall>calls. closed (run calls w')
               \<and> c \<in> closed_chans (run calls w')
               \<and> c \<notin> set (delivered_to (trace (run calls w')))
               \<and> (\<forall>t'. set (subs_at (subscribers (run calls w')) t')
                         \<subseteq> set (subs_at (subscribers closed_bus) t'))))"
proof -
  have c: "closed closed_bus" by (simp add: closed_bus_eq)
  have e: "Subscribe ''a'' closed_bus =
        (Returns 2,
         closed_bus\<lparr>next_chan := 3, closed_chans := {0, 1, 2},
                     trace := [Closed 0, Closed 1, Closed 2]\<rparr>)"
    by (simp add: closed_bus_eq Subscribe_def make_chan_def close_chan_def eval_nat_numeral
        insert_commute)
  from Subscribe_on_closed_bus [OF well_formed_closed_bus c, of "''a''"]
  have "\<exists>c w'. Subscribe ''a'' closed_bus = (Returns c, w')
        \<and> c \<in> closed_chans w' \<and> subscribers w' = subscribers closed_bus
        \<and> (\<forall>calls. closed (run calls w')
               \<and> c \<in> closed_chans (run calls w')
               \<and> c \<notin> set (delivered_to (trace (run calls w')))
               \<and> (\<forall>t'. set (subs_at (subscribers (run calls w')) t')
                         \<subseteq> set (subs_at (subscribers closed_bus) t')))"
    by blast
  with well_formed_closed_bus c e show ?thesis by blast
qed

lemma Close_returns: "well_formed w \<Longrightarrow> fst (Close pick w) = Returns ()"
proof (cases "closed w")
  case True
  then show ?thesis by (simp add: Close_def)
next
  case False
  assume "well_formed w"
  from Close_open [OF this False, of pick] show ?thesis by auto
qed

lemma count_list_distinct:
  "distinct xs \<Longrightarrow> count_list xs x = (if x \<in> set xs then 1 else 0)"
  by (induction xs) auto

text \<open>
  C6: \<open>Close\<close> returns without a panic and leaves the bus closed; a call of \<open>Close\<close>
  on a closed bus returns with the state as it was, so every call after the first changes
  nothing. Over any sequence of calls, \<open>quitCh\<close> is closed once when the sequence has a
  \<open>Close\<close> in it (or the bus was closed before) and never otherwise.
\<close>

theorem Close_idempotent:
  assumes "well_formed w"
  shows "fst (Close pick w) = Returns ()
     \<and> closed (snd (Close pick w))
     \<and> Close pick' (snd (Close pick w)) = (Returns (), snd (Close pick w))
     \<and> (closed w \<longrightarrow> Close pick w = (Returns (), w))
     \<and> (\<forall>calls. count_list (closes (trace (run calls w))) (quitCh w) =
                   (if closed w \<or> list_ex is_Close calls then 1 else 0))"
proof -
  from assms have r: "fst (Close pick w) = Returns ()"
    by (rule Close_returns)
  have c: "closed (snd (Close pick w))"
    using frame_Close [OF assms, of pick] by (simp add: frame_def)
  then have i: "Close pick' (snd (Close pick w)) = (Returns (), snd (Close pick w))"
    by (simp add: Close_def)
  have n: "closed w \<longrightarrow> Close pick w = (Returns (), w)"
    by (simp add: Close_def)
  have "count_list (closes (trace (run calls w))) (quitCh w) =
          (if closed w \<or> list_ex is_Close calls then 1 else 0)" for calls
  proof -
    let ?w = "run calls w"
    from assms have well_formed': "well_formed ?w" by (rule well_formed_run)
    then have "distinct (closes (trace ?w))"
      and "(quitCh ?w \<in> set (closes (trace ?w))) = closed ?w"
      by (simp_all add: well_formed_def)
    then have "count_list (closes (trace ?w)) (quitCh ?w) = (if closed ?w then 1 else 0)"
      by (simp add: count_list_distinct)
    with assms show ?thesis by (simp add: quitCh_run closed_run)
  qed
  with r c i n show ?thesis by blast
qed

theorem Close_idempotent_witness:
  "well_formed (NewEventBus :: nat world)
   \<and> fst (Close (\<lambda>c. QuitCase) closed_bus) = Returns ()
   \<and> closed closed_bus
   \<and> Close (\<lambda>c. SendCase) closed_bus = (Returns (), closed_bus)
   \<and> count_list
        (closes (trace (run [Call_Subscribe ''a'', Call_Close (\<lambda>c. QuitCase),
                             Call_Close (\<lambda>c. SendCase), Call_Subscribe ''b'',
                             Call_Close (\<lambda>c. QuitCase)] (NewEventBus :: nat world))))
        (quitCh (NewEventBus :: nat world)) = 1
   \<and> count_list (closes (trace (run [Call_Subscribe ''a''] (NewEventBus :: nat world))))
        (quitCh (NewEventBus :: nat world)) = 0"
proof -
  have c: "closed closed_bus" by (simp add: closed_bus_eq)
  from c Close_idempotent [OF well_formed_closed_bus, of "\<lambda>c. QuitCase" "\<lambda>c. SendCase"]
  have 1: "fst (Close (\<lambda>c. QuitCase) closed_bus) = Returns ()"
    "Close (\<lambda>c. SendCase) closed_bus = (Returns (), closed_bus)"
    by (simp_all add: Close_def)
  have o: "\<not> closed (NewEventBus :: nat world)" by (simp add: NewEventBus_def)
  let ?N = "NewEventBus :: nat world"
  have wn: "well_formed ?N" by (rule well_formed_NewEventBus)
  from Close_idempotent [OF wn, of "\<lambda>c. QuitCase" "\<lambda>c. QuitCase"]
  have a: "\<forall>calls. count_list (closes (trace (run calls ?N))) (quitCh ?N) =
                   (if closed ?N \<or> list_ex is_Close calls then 1 else 0)"
    by blast
  from a [THEN spec, of "[Call_Subscribe ''a'', Call_Close (\<lambda>c. QuitCase),
                             Call_Close (\<lambda>c. SendCase), Call_Subscribe ''b'',
                             Call_Close (\<lambda>c. QuitCase)]"]
    a [THEN spec, of "[Call_Subscribe ''a'']"] o
  have "count_list
        (closes (trace (run [Call_Subscribe ''a'', Call_Close (\<lambda>c. QuitCase),
                             Call_Close (\<lambda>c. SendCase), Call_Subscribe ''b'',
                             Call_Close (\<lambda>c. QuitCase)] ?N)))
        (quitCh ?N) = 1"
    "count_list (closes (trace (run [Call_Subscribe ''a''] ?N))) (quitCh ?N) = 0"
    by simp_all
  with 1 c wn show ?thesis by blast
qed

lemma subs_at_disjoint:
  "distinct (chans_of m) \<Longrightarrow> t \<noteq> t' \<Longrightarrow> c \<in> set (subs_at m t') \<Longrightarrow> c \<notin> set (subs_at m t)"
proof (induction m)
  case Nil
  then show ?case by simp
next
  case (Cons p m)
  obtain k cs where p: "p = (k, cs)" by (cases p)
  from Cons.prems p have d: "distinct (chans_of m)" "set cs \<inter> set (chans_of m) = {}"
    by simp_all
  show ?case
  proof (cases "k = t")
    case True
    with Cons.prems p have "c \<in> set (chans_of m)"
      using set_subs_at_chans [of m t'] by (auto simp: subs_at_Cons)
    with d True p show ?thesis by (auto simp: subs_at_Cons)
  next
    case False
    show ?thesis
    proof (cases "k = t'")
      case True
      with Cons.prems p have "c \<in> set cs" by (simp add: subs_at_Cons)
      with d have "c \<notin> set (chans_of m)" by blast
      with False p show ?thesis
        using set_subs_at_chans [of m t] by (auto simp: subs_at_Cons)
    next
      case f: False
      with False Cons.prems p d Cons.IH show ?thesis by (simp add: subs_at_Cons)
    qed
  qed
qed

text \<open>
  C7: \<open>Unsubscribe\<close> with a channel that is not in the sequence of the topic returns
  with the state as it was. That is so for a channel registered under another topic, and
  for a second \<open>Unsubscribe\<close> of the same channel: the first returns without a panic,
  and the second changes nothing.
\<close>

theorem Unsubscribe_absent_noop:
  "(c \<notin> set (subs_at (subscribers w) t) \<longrightarrow> Unsubscribe t c w = (Returns (), w))
   \<and> (well_formed w \<and> t' \<noteq> t \<and> c \<in> set (subs_at (subscribers w) t') \<longrightarrow>
         Unsubscribe t c w = (Returns (), w))
   \<and> (well_formed w \<longrightarrow>
         fst (Unsubscribe t c w) = Returns ()
         \<and> Unsubscribe t c (snd (Unsubscribe t c w)) = (Returns (), snd (Unsubscribe t c w)))"
proof (intro conjI impI)
  assume "c \<notin> set (subs_at (subscribers w) t)"
  then show "Unsubscribe t c w = (Returns (), w)" by (rule Unsubscribe_absent)
next
  assume "well_formed w \<and> t' \<noteq> t \<and> c \<in> set (subs_at (subscribers w) t')"
  then have "c \<notin> set (subs_at (subscribers w) t)"
    using subs_at_disjoint [of "subscribers w" t t' c] by (auto simp: well_formed_def)
  then show "Unsubscribe t c w = (Returns (), w)" by (rule Unsubscribe_absent)
next
  assume w: "well_formed w"
  show "fst (Unsubscribe t c w) = Returns ()"
  proof (cases "c \<in> set (subs_at (subscribers w) t)")
    case False
    then show ?thesis by (simp add: Unsubscribe_absent)
  next
    case True
    with w have "c \<notin> closed_chans w"
      using set_subs_at_chans [of "subscribers w" t] by (auto simp: well_formed_def)
    with True show ?thesis by (simp add: Unsubscribe_present)
  qed
next
  assume w: "well_formed w"
  then have "distinct (subs_at (subscribers w) t)"
    by (simp add: well_formed_def distinct_subs_at)
  then have "c \<notin> set (subs_at (subscribers (snd (Unsubscribe t c w))) t)"
    by (simp add: subs_at_Unsubscribe)
  then show "Unsubscribe t c (snd (Unsubscribe t c w)) = (Returns (), snd (Unsubscribe t c w))"
    by (rule Unsubscribe_absent)
qed

theorem Unsubscribe_absent_noop_witness:
  "9 \<notin> set (subs_at (subscribers open_bus) ''a'') \<and> Unsubscribe ''a'' 9 open_bus = (Returns (), open_bus)
   \<and> well_formed open_bus \<and> ''b'' \<noteq> ''a'' \<and> 3 \<in> set (subs_at (subscribers open_bus) ''b'')
   \<and> Unsubscribe ''a'' 3 open_bus = (Returns (), open_bus)
   \<and> snd (Unsubscribe ''a'' 1 open_bus) =
       open_bus\<lparr>subscribers := [(''a'', [2]), (''b'', [3])], closed_chans := {1},
                 trace := [Closed 1]\<rparr>
   \<and> fst (Unsubscribe ''a'' 1 open_bus) = Returns ()
   \<and> Unsubscribe ''a'' 1 (snd (Unsubscribe ''a'' 1 open_bus)) =
       (Returns (), snd (Unsubscribe ''a'' 1 open_bus))"
proof -
  have a: "9 \<notin> set (subs_at (subscribers open_bus) ''a'')"
    by (simp add: open_bus_eq subs_at_def)
  have b: "''b'' \<noteq> ''a''" "3 \<in> set (subs_at (subscribers open_bus) ''b'')"
    by (simp_all add: open_bus_eq subs_at_def)
  have e: "snd (Unsubscribe ''a'' 1 open_bus) =
       open_bus\<lparr>subscribers := [(''a'', [2]), (''b'', [3])], closed_chans := {1},
                 trace := [Closed 1]\<rparr>"
    by (simp add: open_bus_eq Unsubscribe_def subs_at_def slices_Delete_def close_chan_def)
  from a b e well_formed_open_bus
    Unsubscribe_absent_noop [of 9 open_bus "''a''" "''b''"]
    Unsubscribe_absent_noop [of 3 open_bus "''a''" "''b''"]
    Unsubscribe_absent_noop [of 1 open_bus "''a''" "''b''"]
  show ?thesis by blast
qed

lemma subs_at_Unsubscribe_other:
  "t' \<noteq> t \<Longrightarrow> subs_at (subscribers (snd (Unsubscribe t c w))) t' = subs_at (subscribers w) t'"
  by (simp add: subscribers_Unsubscribe)

text \<open>
  C8: the sequence of a topic is in the order of registration. \<open>Subscribe\<close> on an open
  bus puts the channel it returns at the end; \<open>Unsubscribe\<close> takes out the first
  occurrence of the channel and nothing else, in this topic or another; so over every
  sequence of calls the sequence of a topic stays increasing in the numbers of its
  channels, which is the order they were registered in. \<open>PublishSync\<close> on an open
  bus carries out its sends along the sequence from the front: some first part of it, and
  all of it when the call does not block.
\<close>

theorem registration_order:
  "(\<not> closed w \<longrightarrow>
      (\<exists>c. fst (Subscribe t w) = Returns c
         \<and> subs_at (subscribers (snd (Subscribe t w))) t = subs_at (subscribers w) t @ [c]))
   \<and> subs_at (subscribers (snd (Unsubscribe t c w))) t = remove1 c (subs_at (subscribers w) t)
   \<and> (\<forall>t'. t' \<noteq> t \<longrightarrow>
         subs_at (subscribers (snd (Unsubscribe t c w))) t' = subs_at (subscribers w) t')
   \<and> (well_formed w \<and> in_order w \<longrightarrow>
         (\<forall>calls. sorted_wrt (<) (subs_at (subscribers (run calls w)) t)))
   \<and> (\<not> closed w \<longrightarrow>
        (\<exists>k\<le>length (subs_at (subscribers w) t).
           attempted (trace (snd (PublishSync t d w))) =
             attempted (trace w) @ take k (subs_at (subscribers w) t))
        \<and> (fst (PublishSync t d w) \<noteq> Blocks \<longrightarrow>
             attempted (trace (snd (PublishSync t d w))) =
               attempted (trace w) @ subs_at (subscribers w) t))"
proof (intro conjI impI allI)
  assume "\<not> closed w"
  then show "\<exists>c. fst (Subscribe t w) = Returns c
         \<and> subs_at (subscribers (snd (Subscribe t w))) t = subs_at (subscribers w) t @ [c]"
    by (simp add: Subscribe_open)
next
  show "subs_at (subscribers (snd (Unsubscribe t c w))) t = remove1 c (subs_at (subscribers w) t)"
    by (rule subs_at_Unsubscribe)
next
  fix t' assume "t' \<noteq> t"
  then show "subs_at (subscribers (snd (Unsubscribe t c w))) t' = subs_at (subscribers w) t'"
    by (rule subs_at_Unsubscribe_other)
next
  fix calls
  assume "well_formed w \<and> in_order w"
  then have "in_order (run calls w)" by (simp add: in_order_run)
  then show "sorted_wrt (<) (subs_at (subscribers (run calls w)) t)"
    by (simp add: in_order_def sorted_subs_at)
next
  let ?subs = "subs_at (subscribers w) t"
  let ?P = "\<lambda>c. c \<in> closed_chans w \<union> receiving w"
  assume o: "\<not> closed w"
  then have a: "attempted (trace (snd (PublishSync t d w))) =
      attempted (trace w) @ takeWhile ?P ?subs"
    by (simp add: PublishSync_def slices_Clone_def PublishSync_deliver_eq)
  have "takeWhile ?P ?subs = take (length (takeWhile ?P ?subs)) ?subs"
    by (rule takeWhile_eq_take)
  moreover have "length (takeWhile ?P ?subs) \<le> length ?subs"
    by (rule length_takeWhile_le)
  ultimately show "\<exists>k\<le>length ?subs.
      attempted (trace (snd (PublishSync t d w))) = attempted (trace w) @ take k ?subs"
    using a by metis
next
  let ?subs = "subs_at (subscribers w) t"
  let ?P = "\<lambda>c. c \<in> closed_chans w \<union> receiving w"
  assume o: "\<not> closed w" and r: "fst (PublishSync t d w) \<noteq> Blocks"
  from o r have all: "\<forall>c\<in>set ?subs. ?P c"
    by (simp add: PublishSync_def slices_Clone_def PublishSync_deliver_eq split: if_splits)
  then have "takeWhile ?P ?subs = ?subs" by (simp add: takeWhile_eq_all_conv)
  with o show "attempted (trace (snd (PublishSync t d w))) = attempted (trace w) @ ?subs"
    by (simp add: PublishSync_def slices_Clone_def PublishSync_deliver_eq)
qed

theorem registration_order_witness:
  "\<not> closed open_bus \<and> well_formed open_bus
   \<and> subs_at (subscribers open_bus) ''a'' = [1, 2]
   \<and> fst (Subscribe ''a'' open_bus) = Returns 4
   \<and> subs_at (subscribers (snd (Subscribe ''a'' open_bus))) ''a'' = [1, 2, 4]
   \<and> subs_at (subscribers (snd (Unsubscribe ''a'' 1 open_bus))) ''a'' = [2]
   \<and> subs_at (subscribers (snd (Unsubscribe ''a'' 1 open_bus))) ''b'' = [3]
   \<and> in_order open_bus
   \<and> sorted_wrt (<) (subs_at (subscribers (run [Call_Subscribe ''a''] open_bus)) ''a'')
   \<and> fst (PublishSync ''b'' 7 open_bus) \<noteq> Blocks
   \<and> attempted (trace (snd (PublishSync ''b'' 7 open_bus))) = [3]
   \<and> fst (PublishSync ''a'' 7 open_bus) = Blocks
   \<and> attempted (trace (snd (PublishSync ''a'' 7 open_bus))) = [1]"
proof -
  have o: "\<not> closed open_bus" by (simp add: open_bus_eq)
  have s: "subs_at (subscribers open_bus) ''a'' = [1, 2]"
    "subs_at (subscribers open_bus) ''b'' = [3]"
    by (simp_all add: open_bus_eq subs_at_def)
  have n: "fst (Subscribe ''a'' open_bus) = Returns 4"
    by (simp add: open_bus_eq Subscribe_def make_chan_def)
  have t: "attempted (trace open_bus) = []" by (simp add: open_bus_eq)
  have b: "fst (PublishSync ''b'' 7 open_bus) \<noteq> Blocks"
    "fst (PublishSync ''a'' 7 open_bus) = Blocks"
    "attempted (trace (snd (PublishSync ''a'' 7 open_bus))) = [1]"
    by (simp_all add: open_bus_eq PublishSync_def PublishSync_deliver_def slices_Clone_def
        subs_at_def send_def)
  have d: "''b'' \<noteq> ''a''" by simp
  have i: "in_order open_bus"
    unfolding open_bus_def
    by (rule in_order_run [OF well_formed_NewEventBus in_order_NewEventBus])
  from registration_order [of open_bus "''a''" 1 7] o s n well_formed_open_bus i d
  have 1: "subs_at (subscribers (snd (Subscribe ''a'' open_bus))) ''a'' = [1, 2, 4]"
    "subs_at (subscribers (snd (Unsubscribe ''a'' 1 open_bus))) ''a'' = [2]"
    "subs_at (subscribers (snd (Unsubscribe ''a'' 1 open_bus))) ''b'' = [3]"
    "sorted_wrt (<) (subs_at (subscribers (run [Call_Subscribe ''a''] open_bus)) ''a'')"
    by auto
  from registration_order [of open_bus "''b''" 1 7] o s t b(1)
  have 2: "attempted (trace (snd (PublishSync ''b'' 7 open_bus))) = [3]"
    by simp
  from o well_formed_open_bus i s(1) n 1 b 2 show ?thesis by blast
qed

text \<open>
  C2: the loop of \<open>PublishSync\<close> runs after the lock is released, so by then channels
  of the snapshot may have been closed by \<open>Unsubscribe\<close> or \<open>Close\<close>; the claim is
  about the loop on any snapshot in any state. When no send blocks, every channel of the
  snapshot gets its send, in order, a failed one not stopping the later ones; the errors
  recorded are the positions of the closed channels, in order; and the call returns nil
  when there are none and otherwise one error holding their number and the first of them.
  On an open bus \<open>PublishSync\<close> is this loop on the sequence of the topic.
\<close>

theorem PublishSync_aggregates_failures:
  assumes "\<forall>c\<in>set subs. c \<in> closed_chans w \<union> receiving w"
  shows "let failures = map (\<lambda>p. SubscriberPanic (fst p) SendOnClosedChannel)
                          (filter (\<lambda>p. snd p \<in> closed_chans w) (enumerate 0 subs));
             w' = w\<lparr>trace := trace w @
                    map (\<lambda>c. if c \<in> closed_chans w then SendFailed c d else Delivered c d) subs\<rparr>
         in PublishSync_loop 0 subs d [] w = (Returns failures, w')
          \<and> PublishSync_deliver subs d w =
              (Returns (case failures of [] \<Rightarrow> None
                        | e # es \<Rightarrow> Some (PublishSyncErrors (length failures) e)), w')
          \<and> (set subs \<inter> closed_chans w = {} \<longrightarrow> PublishSync_deliver subs d w = (Returns None, w'))
          \<and> (\<not> closed w \<and> subs = subs_at (subscribers w) t \<longrightarrow>
                 PublishSync t d w = PublishSync_deliver subs d w)"
proof -
  from assms have t: "takeWhile (\<lambda>c. c \<in> closed_chans w \<or> c \<in> receiving w) subs = subs"
    by (simp add: takeWhile_eq_all_conv)
  have e: "send_event w d = (\<lambda>c. if c \<in> closed_chans w then SendFailed c d else Delivered c d)"
    by (simp add: send_event_def fun_eq_iff)
  have f: "set subs \<inter> closed_chans w = {} \<Longrightarrow>
      filter (\<lambda>p. snd p \<in> closed_chans w) (enumerate 0 subs) = []"
    by (auto simp: filter_empty_conv enumerate_eq_zip dest: set_zip_rightD)
  from assms f show ?thesis
    by (simp add: Let_def PublishSync_def slices_Clone_def PublishSync_loop_eq
        PublishSync_deliver_eq t e split: list.splits)
qed

theorem PublishSync_aggregates_failures_witness:
  "set [1, 2, 3] \<subseteq> closed_chans (snd (Unsubscribe ''a'' 2 open_bus))
                      \<union> receiving (snd (Unsubscribe ''a'' 2 open_bus))
   \<and> PublishSync_deliver [1, 2, 3] (7::nat) (snd (Unsubscribe ''a'' 2 open_bus)) =
       (Returns (Some (PublishSyncErrors 1 (SubscriberPanic 1 SendOnClosedChannel))),
        snd (Unsubscribe ''a'' 2 open_bus)
          \<lparr>trace := [Closed 2, Delivered 1 7, SendFailed 2 7, Delivered 3 7]\<rparr>)"
proof -
  let ?w = "snd (Unsubscribe ''a'' 2 open_bus)"
  have w: "?w = open_bus\<lparr>subscribers := [(''a'', [1]), (''b'', [3])], closed_chans := {2},
                 trace := [Closed 2]\<rparr>"
    by (simp add: open_bus_eq Unsubscribe_def subs_at_def slices_Delete_def close_chan_def)
  have h: "\<forall>c\<in>set [1, 2, 3]. c \<in> closed_chans ?w \<union> receiving ?w"
    by (simp add: w) (simp add: open_bus_eq)
  from h have "set [1, 2, 3] \<subseteq> closed_chans ?w \<union> receiving ?w" by blast
  moreover from PublishSync_aggregates_failures [OF h, of 7 "''a''"]
  have "PublishSync_deliver [1, 2, 3] (7::nat) ?w =
       (Returns (Some (PublishSyncErrors 1 (SubscriberPanic 1 SendOnClosedChannel))),
        ?w\<lparr>trace := [Closed 2, Delivered 1 7, SendFailed 2 7, Delivered 3 7]\<rparr>)"
    by (simp add: Let_def w enumerate_eq_zip upt_rec)
  ultimately show ?thesis by blast
qed

end
